theory Spec2Isabelle
  imports Complex_Main
begin

section \<open>Characters of a Python string\<close>

text \<open>
  The program works on Python \<open>str\<close> values, sequences of code points. A description
  or a rule term is modelled as a \<open>string\<close>, every \<open>char\<close> standing for one code point
  in the range U+0000 .. U+00FF (Latin-1), so that \<open>length\<close> counts what Python's
  \<open>len\<close> counts. The character classes below are those of CPython's \<open>re\<close> module and
  of \<open>str.strip\<close> on that range.
\<close>

definition is_word :: "char \<Rightarrow> bool" where
  \<comment> \<open>\<open>\w\<close> on a \<open>str\<close> pattern: \<open>ch.isalnum() or ch == '_'\<close>.\<close>
  "is_word c = (let n = (of_char c :: nat) in
     (48 \<le> n \<and> n \<le> 57) \<or> (65 \<le> n \<and> n \<le> 90) \<or> n = 95 \<or> (97 \<le> n \<and> n \<le> 122) \<or>
     n = 170 \<or> n = 178 \<or> n = 179 \<or> n = 181 \<or> n = 185 \<or> n = 186 \<or>
     (188 \<le> n \<and> n \<le> 190) \<or> (192 \<le> n \<and> n \<le> 214) \<or> (216 \<le> n \<and> n \<le> 246) \<or>
     (248 \<le> n \<and> n \<le> 255))"

definition is_space :: "char \<Rightarrow> bool" where
  \<comment> \<open>\<open>str.isspace\<close>, the characters \<open>str.strip()\<close> removes.\<close>
  "is_space c = (let n = (of_char c :: nat) in
     (9 \<le> n \<and> n \<le> 13) \<or> (28 \<le> n \<and> n \<le> 32) \<or> n = 133 \<or> n = 160)"

definition is_alnum :: "char \<Rightarrow> bool" where
  \<comment> \<open>The class \<open>[A-Za-z0-9]\<close> (\<open>[A-Z0-9]\<close> in main.py) under \<open>re.I\<close>, on the
      modelled range. Beyond it, \<open>re.I\<close> puts four more letters into the class, U+0130,
      U+0131, U+017F and U+212A, which a \<open>char\<close> cannot stand for.\<close>
  "is_alnum c = (let n = (of_char c :: nat) in
     (48 \<le> n \<and> n \<le> 57) \<or> (65 \<le> n \<and> n \<le> 90) \<or> (97 \<le> n \<and> n \<le> 122))"

definition lower :: "char \<Rightarrow> char" where
  \<comment> \<open>The simple lower-case mapping that \<open>re.I\<close> compares characters by.\<close>
  "lower c = (let n = (of_char c :: nat) in
     if (65 \<le> n \<and> n \<le> 90) \<or> (192 \<le> n \<and> n \<le> 214) \<or> (216 \<le> n \<and> n \<le> 222)
     then char_of (n + 32) else c)"

definition strip :: "string \<Rightarrow> string" where
  \<comment> \<open>\<open>term.strip()\<close>\<close>
  "strip s = rev (dropWhile is_space (rev (dropWhile is_space s)))"

function re_split :: "string \<Rightarrow> string list" where
  \<comment> \<open>\<open>re.split(r"[^\w]+", term)\<close>: the pieces between the maximal runs of non-word
      characters, the empty pieces at both ends included.\<close>
  "re_split s =
     (let w = takeWhile is_word s; r = dropWhile is_word s
      in if r = [] then [w] else w # re_split (dropWhile (\<lambda>c. \<not> is_word c) r))"
  by pat_completeness auto
termination
proof (relation "measure length")
  fix s w r
  assume w: "w = takeWhile is_word s" and r: "r = dropWhile is_word s" and ne: "r \<noteq> []"
  have "length (dropWhile (\<lambda>c. \<not> is_word c) r) \<le> length r"
    by (rule length_dropWhile_le)
  moreover have "length r \<le> length s"
    unfolding r by (rule length_dropWhile_le)
  moreover have "\<not> is_word (hd r)"
    using ne unfolding r by (rule hd_dropWhile)
  then have "dropWhile (\<lambda>c. \<not> is_word c) r = dropWhile (\<lambda>c. \<not> is_word c) (tl r)"
    using ne by (cases r) simp_all
  then have "length (dropWhile (\<lambda>c. \<not> is_word c) r) < length r"
    using ne length_dropWhile_le [of "\<lambda>c. \<not> is_word c" "tl r"] by (cases r) simp_all
  ultimately show "(dropWhile (\<lambda>c. \<not> is_word c) r, s) \<in> measure length"
    by simp
qed simp

declare re_split.simps [simp del]

definition tokens :: "string \<Rightarrow> string list" where
  \<comment> \<open>\<open>[t for t in re.split(r"[^\w]+", term) if t]\<close>\<close>
  "tokens s = filter (\<lambda>t. t \<noteq> []) (re_split s)"

section \<open>Compiled patterns\<close>

text \<open>
  \<open>make_loose_regex\<close> only builds patterns out of four constructs, so a compiled
  pattern is a sequence of these nodes. \<open>re.escape\<close> followed by \<open>re.compile\<close> turns a
  string into the sequence of its literal characters; \<open>re.I\<close> makes every literal
  compare by \<open>lower\<close>.
\<close>

datatype node =
    Lit char            \<comment> \<open>an escaped literal character, case-insensitive\<close>
  | NonWordStar         \<comment> \<open>\<open>\W*\<close>, greedy\<close>
  | NotAfterAlnum       \<comment> \<open>\<open>(?<![A-Za-z0-9])\<close>\<close>
  | NotBeforeAlnum      \<comment> \<open>\<open>(?![A-Za-z0-9])\<close>\<close>

type_synonym pattern = "node list"

fun join :: "'a list \<Rightarrow> 'a list list \<Rightarrow> 'a list" where
  \<comment> \<open>\<open>sep.join(xs)\<close>\<close>
  "join sep [] = []"
| "join sep [x] = x"
| "join sep (x # y # xs) = x @ sep @ join sep (y # xs)"

definition escape :: "string \<Rightarrow> pattern" where
  \<comment> \<open>\<open>re.escape(s)\<close>, read as the compiled pattern it denotes\<close>
  "escape s = map Lit s"

definition make_loose_regex :: "string \<Rightarrow> pattern" where
  "make_loose_regex term0 =
     (let term = strip term0;
          toks = tokens term
      in if toks = [] then escape term
         else let body = join [NonWordStar] (map escape toks)
              in [NotAfterAlnum] @ body @ [NotBeforeAlnum])"

text \<open>
  The backtracking matcher of \<open>re\<close>, for these nodes. \<open>match_at p prev s\<close> matches
  \<open>p\<close> at a position of the description whose preceding character is \<open>prev\<close>
  (\<open>None\<close> at the start) and whose remaining text is \<open>s\<close>; it returns the length of
  the match. The greedy star first tries to take one more character and falls back to the
  rest of the pattern.
\<close>

fun match_at :: "pattern \<Rightarrow> char option \<Rightarrow> string \<Rightarrow> nat option" where
  "match_at [] prev s = Some 0"
| "match_at (Lit c # p) prev [] = None"
| "match_at (Lit c # p) prev (d # s) =
     (if lower d = lower c then map_option Suc (match_at p (Some d) s) else None)"
| "match_at (NonWordStar # p) prev [] = match_at p prev []"
| "match_at (NonWordStar # p) prev (d # s) =
     (if is_word d then match_at p prev (d # s)
      else (case match_at (NonWordStar # p) (Some d) s of
              Some n \<Rightarrow> Some (Suc n)
            | None \<Rightarrow> match_at p prev (d # s)))"
| "match_at (NotAfterAlnum # p) prev s =
     (case prev of
        None \<Rightarrow> match_at p prev s
      | Some b \<Rightarrow> if is_alnum b then None else match_at p prev s)"
| "match_at (NotBeforeAlnum # p) prev s =
     (case s of
        [] \<Rightarrow> match_at p prev s
      | d # _ \<Rightarrow> if is_alnum d then None else match_at p prev s)"

fun search_from :: "pattern \<Rightarrow> char option \<Rightarrow> string \<Rightarrow> nat \<Rightarrow> (nat \<times> nat) option" where
  \<comment> \<open>the scan of \<open>pat.search\<close> over the start positions, from position \<open>i\<close> on\<close>
  "search_from p prev [] i =
     (case match_at p prev [] of Some n \<Rightarrow> Some (i, i + n) | None \<Rightarrow> None)"
| "search_from p prev (d # s) i =
     (case match_at p prev (d # s) of
        Some n \<Rightarrow> Some (i, i + n)
      | None \<Rightarrow> search_from p (Some d) s (Suc i))"

definition search :: "pattern \<Rightarrow> string \<Rightarrow> (nat \<times> nat) option" where
  \<comment> \<open>\<open>pat.search(desc)\<close>: \<open>(m.start(), m.end())\<close> of the leftmost match, or \<open>None\<close>\<close>
  "search p desc = search_from p None desc 0"

section \<open>The Rule Set and the resolver\<close>

text \<open>
  A Python \<open>dict\<close> iterates in insertion order, so the compiled rules
  \<open>Dict[str, Dict[str, List[re.Pattern]]]\<close> are association lists in that order;
  \<open>rules.items()\<close> is the list itself.
\<close>

type_synonym rule_set = "(string \<times> (string \<times> pattern list) list) list"

definition visit ::
  "string \<Rightarrow> string \<Rightarrow> string \<Rightarrow> pattern \<Rightarrow> int \<times> (string \<times> string) \<Rightarrow> int \<times> (string \<times> string)" where
  \<comment> \<open>the body of the innermost loop of \<open>best_match\<close>, on the locals
      \<open>(best_len, best_pair)\<close>\<close>
  "visit desc cat sub pat st =
     (case st of (best_len, best_pair) \<Rightarrow>
        (case search pat desc of
           None \<Rightarrow> (best_len, best_pair)
         | Some (start, end) \<Rightarrow>
             (let span_len = int end - int start
              in if span_len > best_len then (span_len, (cat, sub))
                 else (best_len, best_pair))))"

definition best_match :: "string \<Rightarrow> rule_set \<Rightarrow> string \<times> string" where
  "best_match desc rules =
     snd (fold (\<lambda>(cat, subs). fold (\<lambda>(sub, patterns). fold (visit desc cat sub) patterns) subs)
            rules (- 1, (''Uncategorized'', ''Other'')))"

text \<open>
  The same function with the object that \<open>rules\<close> refers to kept in the state the loop
  threads, to state what a call leaves behind: the result and the Rule Set after the call.
\<close>

record frame =
  rules_obj :: rule_set
  best_len :: int
  best_pair :: "string \<times> string"

definition visit_st :: "string \<Rightarrow> string \<Rightarrow> string \<Rightarrow> pattern \<Rightarrow> frame \<Rightarrow> frame" where
  "visit_st desc cat sub pat fr =
     (case search pat desc of
        None \<Rightarrow> fr
      | Some (start, end) \<Rightarrow>
          (let span_len = int end - int start
           in if span_len > best_len fr
              then fr\<lparr>best_len := span_len, best_pair := (cat, sub)\<rparr>
              else fr))"

definition best_match_st :: "string \<Rightarrow> rule_set \<Rightarrow> (string \<times> string) \<times> rule_set" where
  "best_match_st desc rules =
     (let fr = fold (\<lambda>(cat, subs). fold (\<lambda>(sub, patterns). fold (visit_st desc cat sub) patterns) subs)
                 rules \<lparr>rules_obj = rules, best_len = - 1, best_pair = (''Uncategorized'', ''Other'')\<rparr>
      in (best_pair fr, rules_obj fr))"

section \<open>Loading the rules\<close>

text \<open>
  \<open>load_rules_json\<close> is modelled from the value \<open>raw\<close> that \<open>json.load\<close> returns
  (reading and parsing the file are outside the program). A JSON object is the
  \<open>dict\<close> it was parsed into, in insertion order. The operations the code applies to
  these dynamically typed values raise on the wrong type of value; every such raise is
  an \<open>Inl\<close>.
\<close>

datatype json =
    JNull
  | JBool bool
  | JInt int
  | JFloat real
  | JString string
  | JArray "json list"
  | JObject "(string \<times> json) list"

datatype error =
    AttributeError string string   \<comment> \<open>\<open>'T' object has no attribute 'a'\<close>: \<open>T\<close> and \<open>a\<close>\<close>
  | TypeError string               \<comment> \<open>\<open>'T' object is not iterable\<close>: \<open>T\<close>\<close>

fun py_type :: "json \<Rightarrow> string" where
  "py_type JNull = ''NoneType''"
| "py_type (JBool b) = ''bool''"
| "py_type (JInt i) = ''int''"
| "py_type (JFloat x) = ''float''"
| "py_type (JString s) = ''str''"
| "py_type (JArray xs) = ''list''"
| "py_type (JObject kvs) = ''dict''"

fun items :: "json \<Rightarrow> error + (string \<times> json) list" where
  \<comment> \<open>\<open>v.items()\<close>\<close>
  "items (JObject kvs) = Inr kvs"
| "items v = Inl (AttributeError (py_type v) ''items'')"

fun iterate :: "json \<Rightarrow> error + json list" where
  \<comment> \<open>\<open>for t in v\<close>: a list gives its elements, a string its characters, a dict its keys\<close>
  "iterate (JArray xs) = Inr xs"
| "iterate (JString s) = Inr (map (\<lambda>c. JString [c]) s)"
| "iterate (JObject kvs) = Inr (map (\<lambda>kv. JString (fst kv)) kvs)"
| "iterate v = Inl (TypeError (py_type v))"

fun call_make_loose_regex :: "json \<Rightarrow> error + pattern" where
  \<comment> \<open>\<open>make_loose_regex(t)\<close> on a value of any type: \<open>t.strip()\<close> exists on \<open>str\<close> only\<close>
  "call_make_loose_regex (JString s) = Inr (make_loose_regex s)"
| "call_make_loose_regex v = Inl (AttributeError (py_type v) ''strip'')"

fun dict_set :: "'k \<Rightarrow> 'v \<Rightarrow> ('k \<times> 'v) list \<Rightarrow> ('k \<times> 'v) list" where
  \<comment> \<open>\<open>d[k] = v\<close>: a new key goes last, a known key keeps its place\<close>
  "dict_set k v [] = [(k, v)]"
| "dict_set k v ((k', v') # d) = (if k' = k then (k, v) # d else (k', v') # dict_set k v d)"

fun compile_terms :: "json list \<Rightarrow> error + pattern list" where
  \<comment> \<open>\<open>[make_loose_regex(t) for t in terms]\<close>\<close>
  "compile_terms [] = Inr []"
| "compile_terms (t # ts) =
     (case call_make_loose_regex t of
        Inl e \<Rightarrow> Inl e
      | Inr p \<Rightarrow> (case compile_terms ts of Inl e \<Rightarrow> Inl e | Inr ps \<Rightarrow> Inr (p # ps)))"

fun compile_subs ::
  "(string \<times> json) list \<Rightarrow> (string \<times> pattern list) list \<Rightarrow> error + (string \<times> pattern list) list" where
  \<comment> \<open>the loop over \<open>subs.items()\<close> filling the inner dict\<close>
  "compile_subs [] acc = Inr acc"
| "compile_subs ((subcat, terms) # rest) acc =
     (case iterate terms of
        Inl e \<Rightarrow> Inl e
      | Inr ts \<Rightarrow>
          (case compile_terms ts of
             Inl e \<Rightarrow> Inl e
           | Inr pats \<Rightarrow> compile_subs rest (dict_set subcat pats acc)))"

fun compile_cats :: "(string \<times> json) list \<Rightarrow> rule_set \<Rightarrow> error + rule_set" where
  \<comment> \<open>the loop over \<open>raw.items()\<close> filling \<open>compiled\<close>\<close>
  "compile_cats [] compiled = Inr compiled"
| "compile_cats ((category, subs) # rest) compiled =
     (case items subs of
        Inl e \<Rightarrow> Inl e
      | Inr kvs \<Rightarrow>
          (case compile_subs kvs [] of
             Inl e \<Rightarrow> Inl e
           | Inr d \<Rightarrow> compile_cats rest (dict_set category d compiled)))"

definition load_rules_json :: "json \<Rightarrow> error + rule_set" where
  "load_rules_json raw =
     (case items raw of Inl e \<Rightarrow> Inl e | Inr kvs \<Rightarrow> compile_cats kvs [])"

section \<open>Notions used to state the properties\<close>

definition triples :: "rule_set \<Rightarrow> (string \<times> string \<times> pattern) list" where
  \<comment> \<open>the (category, subcategory, pattern) triples in the order the three nested loops of
      \<open>best_match\<close> visit them\<close>
  "triples rules =
     concat (map (\<lambda>(cat, subs). concat (map (\<lambda>(sub, patterns). map (\<lambda>pat. (cat, sub, pat)) patterns) subs)) rules)"

definition span_len :: "pattern \<Rightarrow> string \<Rightarrow> int" where
  \<comment> \<open>\<open>m.end() - m.start()\<close> of the leftmost match, and \<open>-1\<close>, the initial
      \<open>best_len\<close>, when there is no match\<close>
  "span_len pat desc = (case search pat desc of None \<Rightarrow> - 1 | Some (start, end) \<Rightarrow> int end - int start)"

definition owner :: "string \<times> string \<times> pattern \<Rightarrow> string \<times> string" where
  \<comment> \<open>the (category, subcategory) pair of a triple\<close>
  "owner t = (fst t, fst (snd t))"

definition matcher :: "string \<times> string \<times> pattern \<Rightarrow> pattern" where
  \<comment> \<open>the compiled pattern of a triple\<close>
  "matcher t = snd (snd t)"

definition visit_triple ::
  "string \<Rightarrow> string \<times> string \<times> pattern \<Rightarrow> int \<times> (string \<times> string) \<Rightarrow> int \<times> (string \<times> string)" where
  \<comment> \<open>the loop body on a triple\<close>
  "visit_triple desc t = visit desc (fst t) (fst (snd t)) (snd (snd t))"

fun weave :: "string list \<Rightarrow> string list \<Rightarrow> string" where
  \<comment> \<open>the pieces \<open>vs\<close> in order, the \<open>i\<close>-th separator between the \<open>i\<close>-th piece and
      the next (nothing where the separators run out)\<close>
  "weave seps [] = []"
| "weave seps [v] = v"
| "weave [] (v # w # vs) = v @ weave [] (w # vs)"
| "weave (sep # seps) (v # w # vs) = v @ sep @ weave seps (w # vs)"

definition case_variant :: "string \<Rightarrow> string \<Rightarrow> bool" where
  \<comment> \<open>\<open>v\<close> is \<open>t\<close> with the casing of some characters changed\<close>
  "case_variant t v = list_all2 (\<lambda>c d. lower d = lower c) t v"

definition term_tokens :: "string \<Rightarrow> string list" where
  \<comment> \<open>the literal pieces of the compiled pattern: the word runs of the trimmed term, or
      the whole trimmed term when there is none\<close>
  "term_tokens term0 =
     (let term = strip term0; toks = tokens term in if toks = [] then [term] else toks)"

definition is_alphanumeric :: "char \<Rightarrow> bool" where
  \<comment> \<open>an alphanumeric character, \<open>str.isalnum\<close>: a word character other than the
      underscore\<close>
  "is_alphanumeric c = (let n = (of_char c :: nat) in
     (48 \<le> n \<and> n \<le> 57) \<or> (65 \<le> n \<and> n \<le> 90) \<or> (97 \<le> n \<and> n \<le> 122) \<or>
     n = 170 \<or> n = 178 \<or> n = 179 \<or> n = 181 \<or> n = 185 \<or> n = 186 \<or>
     (188 \<le> n \<and> n \<le> 190) \<or> (192 \<le> n \<and> n \<le> 214) \<or> (216 \<le> n \<and> n \<le> 246) \<or>
     (248 \<le> n \<and> n \<le> 255))"

function split_by :: "(char \<Rightarrow> bool) \<Rightarrow> string \<Rightarrow> string list" where
  \<comment> \<open>the pieces of a string between its maximal runs of characters outside \<open>P\<close>\<close>
  "split_by P s =
     (let w = takeWhile P s; r = dropWhile P s
      in if r = [] then [w] else w # split_by P (dropWhile (\<lambda>c. \<not> P c) r))"
  by pat_completeness auto
termination
proof (relation "measure (\<lambda>(P, s). length s)")
  fix P :: "char \<Rightarrow> bool" and s w r
  assume r: "r = dropWhile P s" and ne: "r \<noteq> []"
  have "length r \<le> length s"
    unfolding r by (rule length_dropWhile_le)
  moreover have "\<not> P (hd r)"
    using ne unfolding r by (rule hd_dropWhile)
  then have "length (dropWhile (\<lambda>c. \<not> P c) r) < length r"
    using ne length_dropWhile_le [of "\<lambda>c. \<not> P c" "tl r"] by (cases r) simp_all
  ultimately show "((P, dropWhile (\<lambda>c. \<not> P c) r), (P, s)) \<in> measure (\<lambda>(P, s). length s)"
    by simp
qed simp

declare split_by.simps [simp del]

definition spec_tokens :: "string \<Rightarrow> string list" where
  \<comment> \<open>the tokens of a rule term in the words of the spec (4.1, step 2): the trimmed term
      split on the runs of non-alphanumeric characters, empty tokens discarded; the whole
      trimmed term as one literal token when none remains\<close>
  "spec_tokens term0 =
     (let term = strip term0;
          toks = filter (\<lambda>t. t \<noteq> []) (split_by is_alphanumeric term)
      in if toks = [] then [term] else toks)"

fun is_string :: "json \<Rightarrow> bool" where
  "is_string (JString s) = True"
| "is_string v = False"

fun non_string_term :: "json \<Rightarrow> bool" where
  \<comment> \<open>a list of terms that holds a term which is not a string\<close>
  "non_string_term (JArray ts) = (\<exists>t\<in>set ts. \<not> is_string t)"
| "non_string_term v = False"

fun malformed_subs :: "json \<Rightarrow> bool" where
  \<comment> \<open>the value of a category: not a mapping, or a mapping with a non-string term\<close>
  "malformed_subs (JObject kvs) = (\<exists>kv\<in>set kvs. non_string_term (snd kv))"
| "malformed_subs v = True"

fun malformed :: "json \<Rightarrow> bool" where
  \<comment> \<open>the rules document: not a mapping, or a mapping with a malformed category\<close>
  "malformed (JObject cats) = (\<exists>kv\<in>set cats. malformed_subs (snd kv))"
| "malformed v = True"

definition view :: "frame \<Rightarrow> (int \<times> (string \<times> string)) \<times> rule_set" where
  \<comment> \<open>the locals of a frame, and the Rule Set object beside them\<close>
  "view fr = ((best_len fr, best_pair fr), rules_obj fr)"

section \<open>The resolver as one loop over the triples\<close>

lemma fold_visit_pats:
  "fold (visit desc c s) ps st = fold (visit_triple desc) (map (\<lambda>p. (c, s, p)) ps) st"
  by (induction ps arbitrary: st) (simp_all add: visit_triple_def)

lemma fold_visit_subs:
  "fold (\<lambda>(s, ps). fold (visit desc c s) ps) subs st =
   fold (visit_triple desc) (concat (map (\<lambda>(s, ps). map (\<lambda>p. (c, s, p)) ps) subs)) st"
  by (induction subs arbitrary: st) (auto simp: fold_visit_pats)

lemma fold_visit_rules:
  "fold (\<lambda>(c, subs). fold (\<lambda>(s, ps). fold (visit desc c s) ps) subs) rules st =
   fold (visit_triple desc) (triples rules) st"
  unfolding triples_def
  by (induction rules arbitrary: st) (auto simp: fold_visit_subs)

lemma best_match_triples:
  "best_match desc rules = snd (fold (visit_triple desc) (triples rules) (- 1, (''Uncategorized'', ''Other'')))"
  by (simp add: best_match_def fold_visit_rules)

lemma match_at_le: "match_at p prev s = Some n \<Longrightarrow> n \<le> length s"
  by (induction p prev s arbitrary: n rule: match_at.induct)
     (auto split: if_splits option.splits list.splits)

lemma search_from_bounds:
  "search_from p prev s i = Some (a, b) \<Longrightarrow> i \<le> a \<and> a \<le> b \<and> b \<le> i + length s"
proof (induction s arbitrary: prev i)
  case Nil
  then show ?case by (auto split: option.splits dest: match_at_le)
next
  case (Cons d s)
  show ?case
  proof (cases "match_at p prev (d # s)")
    case None
    with Cons.prems have "search_from p (Some d) s (Suc i) = Some (a, b)" by simp
    from Cons.IH [OF this] show ?thesis by simp
  next
    case (Some n)
    with Cons.prems match_at_le [OF Some] show ?thesis by auto
  qed
qed

lemma search_bounds: "search p desc = Some (a, b) \<Longrightarrow> a \<le> b \<and> b \<le> length desc"
  unfolding search_def by (drule search_from_bounds) simp

lemma span_len_ge: "- 1 \<le> span_len p desc"
  unfolding span_len_def by (auto split: option.splits dest: search_bounds)

lemma span_len_match: "(0 \<le> span_len p desc) = (search p desc \<noteq> None)"
  unfolding span_len_def by (auto split: option.splits dest: search_bounds)

lemma visit_triple_span:
  "- 1 \<le> bl \<Longrightarrow>
   visit_triple desc t (bl, bp) =
     (if bl < span_len (matcher t) desc then (span_len (matcher t) desc, owner t) else (bl, bp))"
  unfolding visit_triple_def visit_def span_len_def matcher_def owner_def
  by (auto split: option.splits simp: Let_def)

lemma fold_keep:
  "- 1 \<le> bl \<Longrightarrow> \<forall>t\<in>set ts. span_len (matcher t) desc \<le> bl \<Longrightarrow>
   fold (visit_triple desc) ts (bl, bp) = (bl, bp)"
  by (induction ts) (simp_all add: visit_triple_span)

lemma fold_below:
  "- 1 \<le> bl \<Longrightarrow> bl < n \<Longrightarrow> \<forall>t\<in>set ts. span_len (matcher t) desc < n \<Longrightarrow>
   - 1 \<le> fst (fold (visit_triple desc) ts (bl, bp)) \<and> fst (fold (visit_triple desc) ts (bl, bp)) < n"
proof (induction ts arbitrary: bl bp)
  case Nil
  then show ?case by simp
next
  case (Cons t ts)
  show ?case
  proof (cases "bl < span_len (matcher t) desc")
    case True
    have "visit_triple desc t (bl, bp) = (span_len (matcher t) desc, owner t)"
      using Cons.prems(1) True by (simp add: visit_triple_span)
    moreover have "- 1 \<le> span_len (matcher t) desc" by (rule span_len_ge)
    moreover have "span_len (matcher t) desc < n" using Cons.prems(3) by simp
    ultimately show ?thesis using Cons.IH [of "span_len (matcher t) desc" "owner t"] Cons.prems(3)
      by simp
  next
    case False
    then have "visit_triple desc t (bl, bp) = (bl, bp)"
      using Cons.prems(1) by (simp add: visit_triple_span)
    then show ?thesis using Cons.IH [of bl bp] Cons.prems by simp
  qed
qed

lemma fold_first_max:
  assumes "0 \<le> span_len (matcher t) desc"
    and "\<forall>u\<in>set xs. span_len (matcher u) desc < span_len (matcher t) desc"
    and "\<forall>u\<in>set ys. span_len (matcher u) desc \<le> span_len (matcher t) desc"
  shows "fold (visit_triple desc) (xs @ t # ys) (- 1, bp) = (span_len (matcher t) desc, owner t)"
proof -
  let ?n = "span_len (matcher t) desc"
  obtain bl' bp' where st: "fold (visit_triple desc) xs (- 1, bp) = (bl', bp')"
    by (cases "fold (visit_triple desc) xs (- 1, bp)")
  have "- 1 \<le> fst (fold (visit_triple desc) xs (- 1, bp)) \<and> fst (fold (visit_triple desc) xs (- 1, bp)) < ?n"
    using assms(1,2) by (intro fold_below) simp_all
  then have b: "- 1 \<le> bl'" "bl' < ?n" by (simp_all add: st)
  then have "visit_triple desc t (bl', bp') = (?n, owner t)"
    by (simp add: visit_triple_span)
  moreover have "fold (visit_triple desc) ys (?n, owner t) = (?n, owner t)"
    using assms(1,3) by (intro fold_keep) simp_all
  ultimately show ?thesis by (simp add: st)
qed

lemma best_match_first_max:
  assumes "triples rules = xs @ t # ys"
    and "0 \<le> span_len (matcher t) desc"
    and "\<forall>u\<in>set xs. span_len (matcher u) desc < span_len (matcher t) desc"
    and "\<forall>u\<in>set ys. span_len (matcher u) desc \<le> span_len (matcher t) desc"
  shows "best_match desc rules = owner t"
proof -
  have "fold (visit_triple desc) (triples rules) (- 1, (''Uncategorized'', ''Other'')) =
        (span_len (matcher t) desc, owner t)"
    unfolding assms(1) by (rule fold_first_max [OF assms(2,3,4)])
  then show ?thesis by (simp add: best_match_triples)
qed

lemma best_match_no_match:
  assumes "\<forall>u\<in>set (triples rules). search (matcher u) desc = None"
  shows "best_match desc rules = (''Uncategorized'', ''Other'')"
proof -
  have "\<forall>u\<in>set (triples rules). span_len (matcher u) desc \<le> - 1"
    using assms by (simp add: span_len_def)
  then have "fold (visit_triple desc) (triples rules) (- 1, (''Uncategorized'', ''Other'')) = (- 1, (''Uncategorized'', ''Other''))"
    by (intro fold_keep) simp_all
  then show ?thesis by (simp add: best_match_triples)
qed

section \<open>Character classes\<close>

lemma of_char_lower:
  "(of_char (lower c) :: nat) =
     (let n = of_char c in
      if (65 \<le> n \<and> n \<le> 90) \<or> (192 \<le> n \<and> n \<le> 214) \<or> (216 \<le> n \<and> n \<le> 222)
      then n + 32 else n)"
  unfolding lower_def Let_def by (auto simp: of_char_of)

lemma is_word_lower: "is_word (lower c) = is_word c"
  unfolding is_word_def of_char_lower unfolding Let_def by auto

lemma lower_eq_word: "lower d = lower c \<Longrightarrow> is_word d = is_word c"
  using is_word_lower [of c] is_word_lower [of d] by simp

lemma is_alnum_word: "is_alnum c \<Longrightarrow> is_word c"
  unfolding is_alnum_def is_word_def Let_def by auto

section \<open>What the compiled patterns match\<close>

lemma match_lits:
  assumes "list_all2 (\<lambda>c d. lower d = lower c) t v"
    and "\<And>pv. match_at q pv rest = Some n"
  shows "match_at (escape t @ q) prev (v @ rest) = Some (length v + n)"
  using assms(1) unfolding escape_def
proof (induction t v arbitrary: prev rule: list_all2_induct)
  case Nil
  then show ?case using assms(2) by simp
next
  case (Cons c t d v)
  then show ?case by simp
qed

lemma match_star:
  assumes "\<forall>c\<in>set sep. \<not> is_word c"
    and "rest = [] \<or> is_word (hd rest)"
    and "\<And>pv. match_at q pv rest = Some n"
  shows "match_at (NonWordStar # q) prev (sep @ rest) = Some (length sep + n)"
  using assms(1)
proof (induction sep arbitrary: prev)
  case Nil
  show ?case using assms(2,3) by (cases rest) simp_all
next
  case (Cons d sep)
  then show ?case by simp
qed

lemma not_before_alnum:
  "rest = [] \<or> \<not> is_alnum (hd rest) \<Longrightarrow> match_at [NotBeforeAlnum] pv rest = Some 0"
  by (cases rest) simp_all

lemma match_body:
  assumes "list_all2 case_variant ts vs"
    and "\<forall>t\<in>set ts. t \<noteq> [] \<and> (\<forall>c\<in>set t. is_word c)"
    and "\<forall>sep\<in>set seps. \<forall>c\<in>set sep. \<not> is_word c"
    and "rest = [] \<or> \<not> is_alnum (hd rest)"
  shows "match_at (join [NonWordStar] (map escape ts) @ [NotBeforeAlnum]) prev (weave seps vs @ rest) =
         Some (length (weave seps vs))"
  using assms(1,2,3)
proof (induction ts vs arbitrary: seps prev rule: list_all2_induct)
  case Nil
  show ?case using not_before_alnum [OF assms(4), of prev] by simp
next
  case (Cons t ts v vs)
  have tv: "list_all2 (\<lambda>c d. lower d = lower c) t v"
    using Cons.hyps(1) by (simp add: case_variant_def)
  show ?case
  proof (cases ts)
    case Nil
    then have vs: "vs = []" using Cons.hyps(2) by simp
    have "match_at (escape t @ [NotBeforeAlnum]) prev (v @ rest) = Some (length v + 0)"
      by (rule match_lits [OF tv]) (rule not_before_alnum [OF assms(4)])
    then show ?thesis by (simp add: Nil vs)
  next
    case ts: (Cons u us)
    then obtain w ws where vs: "vs = w # ws"
      using Cons.hyps(2) by (cases vs) simp_all
    have uw: "list_all2 (\<lambda>c d. lower d = lower c) u w"
      using Cons.hyps(2) by (simp add: ts vs case_variant_def)
    have u: "u \<noteq> []" "\<forall>c\<in>set u. is_word c"
      using Cons.prems(1) by (simp_all add: ts)
    from u(1) uw obtain c u' d w' where u': "u = c # u'" and w': "w = d # w'" and cd: "lower d = lower c"
      by (cases u; cases w) auto
    have "is_word c" using u(2) by (simp add: u')
    then have wd: "is_word d" using lower_eq_word [OF cd] by simp
    define sep seps' where "sep = (case seps of [] \<Rightarrow> [] | x # _ \<Rightarrow> x)"
      and "seps' = (case seps of [] \<Rightarrow> [] | _ # xs \<Rightarrow> xs)"
    have wv: "weave seps (v # w # ws) = v @ sep @ weave seps' (w # ws)"
      by (cases seps) (simp_all add: sep_def seps'_def)
    have sep: "\<forall>c\<in>set sep. \<not> is_word c" and seps': "\<forall>sep\<in>set seps'. \<forall>c\<in>set sep. \<not> is_word c"
      using Cons.prems(2) by (cases seps; simp add: sep_def seps'_def)+
    let ?q = "join [NonWordStar] (map escape (u # us)) @ [NotBeforeAlnum]"
    let ?r = "weave seps' (w # ws) @ rest"
    have IH: "\<And>pv. match_at ?q pv ?r = Some (length (weave seps' (w # ws)))"
      using Cons.IH [OF _ seps'] Cons.prems(1) by (simp add: ts vs)
    have hd: "?r = [] \<or> is_word (hd ?r)"
      using wd by (cases ws; cases seps') (simp_all add: w')
    have star: "\<And>pv. match_at (NonWordStar # ?q) pv (sep @ ?r) =
                  Some (length sep + length (weave seps' (w # ws)))"
      by (rule match_star [OF sep hd IH])
    have "match_at (escape t @ NonWordStar # ?q) prev (v @ sep @ ?r) =
          Some (length v + (length sep + length (weave seps' (w # ws))))"
      by (rule match_lits [OF tv star])
    then show ?thesis by (simp add: ts vs wv)
  qed
qed

lemma search_from_complete:
  assumes "match_at p (if pre = [] then prev else Some (last pre)) rest = Some n"
  shows "\<exists>a b. search_from p prev (pre @ rest) i = Some (a, b)"
  using assms
proof (induction pre arbitrary: prev i)
  case Nil
  then show ?case by (cases rest) simp_all
next
  case (Cons d pre)
  have "match_at p (if pre = [] then Some d else Some (last pre)) rest = Some n"
    using Cons.prems by (simp split: if_splits)
  from Cons.IH [OF this] show ?case
    by (cases "match_at p prev (d # pre @ rest)") simp_all
qed

section \<open>Tokens of a term\<close>

lemma tokens_unfold:
  "tokens s =
     (if takeWhile is_word s = [] then [] else [takeWhile is_word s]) @
     (if dropWhile is_word s = [] then []
      else tokens (dropWhile (\<lambda>c. \<not> is_word c) (dropWhile is_word s)))"
  unfolding tokens_def by (subst re_split.simps) (simp add: Let_def)

lemma tokens_word: "t \<in> set (tokens s) \<Longrightarrow> t \<noteq> [] \<and> (\<forall>c\<in>set t. is_word c)"
proof (induction s rule: re_split.induct)
  case (1 s)
  show ?case
  proof (cases "t = takeWhile is_word s")
    case True
    moreover have "t \<noteq> []" using "1.prems" by (simp add: tokens_def)
    ultimately show ?thesis by (auto dest: set_takeWhileD)
  next
    case False
    then have "dropWhile is_word s \<noteq> []"
      and "t \<in> set (tokens (dropWhile (\<lambda>c. \<not> is_word c) (dropWhile is_word s)))"
      using "1.prems" by (subst (asm) tokens_unfold, auto split: if_splits)+
    then show ?thesis using "1.IH" by blast
  qed
qed

lemma tokens_Nil: "tokens s = [] \<Longrightarrow> \<forall>c\<in>set s. \<not> is_word c"
proof (induction s rule: re_split.induct)
  case (1 s)
  let ?r = "dropWhile is_word s"
  let ?s' = "dropWhile (\<lambda>c. \<not> is_word c) ?r"
  have w: "takeWhile is_word s = []"
    using "1.prems" by (subst (asm) tokens_unfold) (simp split: if_splits)
  then have s: "s = ?r" using takeWhile_dropWhile_id [of is_word s] by simp
  show ?case
  proof (cases "?r = []")
    case True
    with s show ?thesis by simp
  next
    case False
    then have "tokens ?s' = []"
      using "1.prems" by (subst (asm) tokens_unfold) (simp split: if_splits)
    then have "\<forall>c\<in>set ?s'. \<not> is_word c" using "1.IH" False by blast
    moreover have "\<forall>c\<in>set (takeWhile (\<lambda>c. \<not> is_word c) ?r). \<not> is_word c"
      by (auto dest: set_takeWhileD)
    moreover have "?r = takeWhile (\<lambda>c. \<not> is_word c) ?r @ ?s'" by simp
    ultimately have "\<forall>c\<in>set ?r. \<not> is_word c"
      by (metis Un_iff set_append)
    with s show ?thesis by simp
  qed
qed

lemma tokens_decomp:
  "tokens s \<noteq> [] \<Longrightarrow>
   \<exists>pre seps post. s = pre @ weave seps (tokens s) @ post \<and>
     (\<forall>c\<in>set pre. \<not> is_word c) \<and> (\<forall>sep\<in>set seps. \<forall>c\<in>set sep. \<not> is_word c) \<and>
     (\<forall>c\<in>set post. \<not> is_word c)"
proof (induction s rule: re_split.induct)
  case (1 s)
  define w where "w = takeWhile is_word s"
  define r where "r = dropWhile is_word s"
  define g where "g = takeWhile (\<lambda>c. \<not> is_word c) r"
  define s' where "s' = dropWhile (\<lambda>c. \<not> is_word c) r"
  have s: "s = w @ g @ s'" by (simp add: w_def r_def g_def s'_def)
  have g: "\<forall>c\<in>set g. \<not> is_word c" by (auto simp: g_def dest: set_takeWhileD)
  have tk0: "tokens s = (if w = [] then [] else [w]) @ (if r = [] then [] else tokens s')"
    unfolding w_def r_def s'_def by (rule tokens_unfold)
  show ?case
  proof (cases "r = []")
    case True
    then have "g = []" "s' = []" by (simp_all add: g_def s'_def)
    then have "s = w" using s by simp
    moreover have "tokens s = [w]"
      using "1.prems" True tk0 by (simp split: if_splits)
    ultimately have "s = [] @ weave [] (tokens s) @ []" by simp
    then show ?thesis
      by (intro exI [of _ "[]"] conjI) simp_all
  next
    case r: False
    have tk: "tokens s = (if w = [] then [] else [w]) @ tokens s'"
      using r tk0 by simp
    show ?thesis
    proof (cases "tokens s' = []")
      case True
      then have w: "w \<noteq> []" and t: "tokens s = [w]" using "1.prems" tk by (auto split: if_splits)
      have "\<forall>c\<in>set s'. \<not> is_word c" using True by (rule tokens_Nil)
      with g have p: "\<forall>c\<in>set (g @ s'). \<not> is_word c" by auto
      have e: "s = [] @ weave [] (tokens s) @ (g @ s')" by (simp add: t s [symmetric])
      show ?thesis
        by (rule exI [of _ "[]"], rule exI [of _ "[]"], rule exI [of _ "g @ s'"])
           (use e p in simp)
    next
      case False
      have "\<exists>pre seps post. s' = pre @ weave seps (tokens s') @ post \<and>
          (\<forall>c\<in>set pre. \<not> is_word c) \<and> (\<forall>sep\<in>set seps. \<forall>c\<in>set sep. \<not> is_word c) \<and>
          (\<forall>c\<in>set post. \<not> is_word c)"
        using "1.IH" [OF refl refl] r False unfolding r_def s'_def by blast
      then obtain pre seps post where
        d: "s' = pre @ weave seps (tokens s') @ post"
        and pre: "\<forall>c\<in>set pre. \<not> is_word c"
        and seps: "\<forall>sep\<in>set seps. \<forall>c\<in>set sep. \<not> is_word c"
        and post: "\<forall>c\<in>set post. \<not> is_word c" by blast
      obtain u us where us: "tokens s' = u # us" using False by (cases "tokens s'") simp_all
      have s2: "s = w @ g @ pre @ weave seps (tokens s') @ post"
        using d by (subst s) simp
      show ?thesis
      proof (cases "w = []")
        case True
        then have t: "tokens s = tokens s'" using tk by simp
        have e: "s = (g @ pre) @ weave seps (tokens s) @ post"
          by (subst s2) (simp add: t True)
        have p: "\<forall>c\<in>set (g @ pre). \<not> is_word c" using g pre by auto
        show ?thesis
          by (rule exI [of _ "g @ pre"], rule exI [of _ seps], rule exI [of _ post])
             (use e p seps post in blast)
      next
        case w: False
        then have t: "tokens s = w # u # us" using tk us by simp
        have "weave ((g @ pre) # seps) (tokens s) = w @ (g @ pre) @ weave seps (tokens s')"
          by (simp add: t us)
        then have e: "s = [] @ weave ((g @ pre) # seps) (tokens s) @ post"
          by (subst s2) simp
        have p: "\<forall>sep\<in>set ((g @ pre) # seps). \<forall>c\<in>set sep. \<not> is_word c"
          using g pre seps by auto
        show ?thesis
          by (rule exI [of _ "[]"], rule exI [of _ "(g @ pre) # seps"], rule exI [of _ post])
             (use e p post in simp)
      qed
    qed
  qed
qed

section \<open>Patterns built by \<open>make_loose_regex\<close>\<close>

lemma case_variant_refl: "case_variant t t"
  unfolding case_variant_def by (simp add: list_all2_same)

lemma make_loose_regex_tokens:
  "tokens (strip T) \<noteq> [] \<Longrightarrow>
   make_loose_regex T = NotAfterAlnum # join [NonWordStar] (map escape (tokens (strip T))) @ [NotBeforeAlnum]"
  by (simp add: make_loose_regex_def Let_def)

lemma make_loose_regex_literal:
  "tokens (strip T) = [] \<Longrightarrow> make_loose_regex T = escape (strip T)"
  by (simp add: make_loose_regex_def Let_def)

lemma loose_match:
  assumes var: "list_all2 case_variant (term_tokens T) vs"
    and seps: "\<forall>sep\<in>set seps. \<forall>c\<in>set sep. \<not> is_word c"
    and pre: "pre = [] \<or> \<not> is_alnum (last pre)"
    and suf: "suf = [] \<or> \<not> is_alnum (hd suf)"
  shows "\<exists>a b. search (make_loose_regex T) (pre @ weave seps vs @ suf) = Some (a, b)"
proof -
  let ?prev = "if pre = [] then None else Some (last pre)"
  have "\<exists>n. match_at (make_loose_regex T) ?prev (weave seps vs @ suf) = Some n"
  proof (cases "tokens (strip T) = []")
    case True
    then have "term_tokens T = [strip T]" by (simp add: term_tokens_def Let_def)
    with var obtain v where vs: "vs = [v]" and v: "case_variant (strip T) v"
      by (auto simp: list_all2_Cons1)
    have "match_at (escape (strip T) @ []) ?prev (v @ suf) = Some (length v + 0)"
      using v unfolding case_variant_def by (rule match_lits) simp
    then show ?thesis by (simp add: make_loose_regex_literal [OF True] vs)
  next
    case False
    then have tt: "term_tokens T = tokens (strip T)" by (simp add: term_tokens_def Let_def)
    have "match_at (join [NonWordStar] (map escape (tokens (strip T))) @ [NotBeforeAlnum]) ?prev
            (weave seps vs @ suf) = Some (length (weave seps vs))"
      using var [unfolded tt] _ seps suf by (rule match_body) (simp add: tokens_word)
    then show ?thesis using pre
      by (cases "pre = []") (simp_all add: make_loose_regex_tokens [OF False])
  qed
  then obtain n where "match_at (make_loose_regex T) ?prev (weave seps vs @ suf) = Some n" ..
  then show ?thesis unfolding search_def by (rule search_from_complete)
qed

lemma search_from_match:
  "search_from p prev s i = Some (a, b) \<Longrightarrow>
   \<exists>pre rest. s = pre @ rest \<and> a = i + length pre \<and>
     match_at p (if pre = [] then prev else Some (last pre)) rest = Some (b - a)"
proof (induction s arbitrary: prev i)
  case Nil
  then have "match_at p prev [] = Some (b - a)" "a = i" by (auto split: option.splits)
  then show ?case by simp
next
  case (Cons d s)
  show ?case
  proof (cases "match_at p prev (d # s)")
    case (Some n)
    with Cons.prems have "a = i" "b - a = n" by auto
    with Some have "d # s = [] @ (d # s) \<and> a = i + length ([]::string) \<and>
        match_at p (if ([]::string) = [] then prev else Some (last [])) (d # s) = Some (b - a)" by simp
    then show ?thesis by blast
  next
    case None
    with Cons.prems have "search_from p (Some d) s (Suc i) = Some (a, b)" by simp
    from Cons.IH [OF this] obtain pre rest where
      "s = pre @ rest" "a = Suc i + length pre"
      "match_at p (if pre = [] then Some d else Some (last pre)) rest = Some (b - a)" by blast
    then have "d # s = (d # pre) @ rest \<and> a = i + length (d # pre) \<and>
        match_at p (if d # pre = [] then prev else Some (last (d # pre))) rest = Some (b - a)"
      by (cases "pre = []") simp_all
    then show ?thesis by blast
  qed
qed

lemma match_not_after:
  "match_at (NotAfterAlnum # q) (Some c) s = Some n \<Longrightarrow> \<not> is_alnum c"
  by (auto split: if_splits)

lemma match_last_not_before:
  "p \<noteq> [] \<Longrightarrow> last p = NotBeforeAlnum \<Longrightarrow> match_at p prev s = Some n \<Longrightarrow>
   n \<le> length s \<and> (n = length s \<or> \<not> is_alnum (s ! n))"
  by (induction p prev s arbitrary: n rule: match_at.induct)
     (auto split: if_splits option.splits list.splits)

lemma match_not_before:
  "match_at (q @ [NotBeforeAlnum]) prev s = Some n \<Longrightarrow>
   n \<le> length s \<and> (n = length s \<or> \<not> is_alnum (s ! n))"
  by (rule match_last_not_before [of "q @ [NotBeforeAlnum]"]) simp_all

lemma search_boundaries:
  assumes "tokens (strip T) \<noteq> []" and "search (make_loose_regex T) desc = Some (a, b)"
  shows "(a = 0 \<or> \<not> is_alnum (desc ! (a - 1))) \<and> (b = length desc \<or> \<not> is_alnum (desc ! b))"
proof -
  let ?body = "join [NonWordStar] (map escape (tokens (strip T)))"
  have p: "make_loose_regex T = NotAfterAlnum # ?body @ [NotBeforeAlnum]"
    using assms(1) by (rule make_loose_regex_tokens)
  from assms(2) obtain pre rest where d: "desc = pre @ rest" and a: "a = length pre"
    and m: "match_at (make_loose_regex T) (if pre = [] then None else Some (last pre)) rest = Some (b - a)"
    using search_from_match [OF assms(2) [unfolded search_def]] by auto
  have ab: "a \<le> b" using assms(2) by (auto dest: search_bounds)
  have left: "a = 0 \<or> \<not> is_alnum (desc ! (a - 1))"
  proof (cases "pre = []")
    case True
    then show ?thesis using a by simp
  next
    case False
    then have "match_at (NotAfterAlnum # ?body @ [NotBeforeAlnum]) (Some (last pre)) rest = Some (b - a)"
      using m p by simp
    then have "\<not> is_alnum (last pre)" by (rule match_not_after)
    moreover have "desc ! (a - 1) = last pre"
      using False by (simp add: d a nth_append last_conv_nth)
    ultimately show ?thesis by simp
  qed
  have "match_at ((NotAfterAlnum # ?body) @ [NotBeforeAlnum]) (if pre = [] then None else Some (last pre)) rest = Some (b - a)"
    using m p by simp
  from match_not_before [OF this]
  have "b - a \<le> length rest" "b - a = length rest \<or> \<not> is_alnum (rest ! (b - a))" by simp_all
  moreover have "rest ! (b - a) = desc ! b" using ab by (simp add: d a nth_append)
  ultimately have "b = length desc \<or> \<not> is_alnum (desc ! b)" using ab by (auto simp: d a)
  with left show ?thesis by simp
qed

lemma join_escape_Cons:
  "t \<noteq> [] \<Longrightarrow> \<exists>c q. join [NonWordStar] (map escape (t # ts)) = Lit c # q"
  by (cases t; cases ts) (simp_all add: escape_def)

lemma match_empty_nonblank:
  assumes "strip T \<noteq> []"
  shows "match_at (make_loose_regex T) prev [] = None"
proof (cases "tokens (strip T)")
  case Nil
  obtain c cs where "strip T = c # cs" using assms by (cases "strip T") simp_all
  then show ?thesis by (simp add: make_loose_regex_literal [OF Nil] escape_def)
next
  case (Cons t ts)
  then have "t \<noteq> []" using tokens_word [of t "strip T"] by simp
  then obtain c q where "join [NonWordStar] (map escape (t # ts)) = Lit c # q"
    using join_escape_Cons by blast
  then have "make_loose_regex T = NotAfterAlnum # Lit c # q @ [NotBeforeAlnum]"
    using make_loose_regex_tokens [of T] Cons by simp
  then show ?thesis by (simp split: option.splits)
qed

lemma search_empty_nonblank: "strip T \<noteq> [] \<Longrightarrow> search (make_loose_regex T) [] = None"
  by (simp add: search_def match_empty_nonblank)

section \<open>Errors of the loader\<close>

lemma compile_terms_non_string:
  "\<exists>t\<in>set ts. \<not> is_string t \<Longrightarrow> isl (compile_terms ts)"
proof (induction ts)
  case Nil
  then show ?case by simp
next
  case (Cons t ts)
  show ?case
  proof (cases t)
    case (JString s)
    then have "\<exists>t\<in>set ts. \<not> is_string t" using Cons.prems by simp
    then have "isl (compile_terms ts)" by (rule Cons.IH)
    then show ?thesis by (cases "compile_terms ts") (simp_all add: JString)
  qed simp_all
qed

lemma compile_subs_non_string:
  "\<exists>kv\<in>set kvs. non_string_term (snd kv) \<Longrightarrow> isl (compile_subs kvs acc)"
proof (induction kvs acc rule: compile_subs.induct)
  case (1 acc)
  then show ?case by simp
next
  case (2 subcat terms rest acc)
  show ?case
  proof (cases "non_string_term terms")
    case True
    then obtain ts where "terms = JArray ts" "\<exists>t\<in>set ts. \<not> is_string t"
      by (cases terms) simp_all
    then show ?thesis using compile_terms_non_string [of ts]
      by (cases "compile_terms ts") simp_all
  next
    case False
    then have "\<exists>kv\<in>set rest. non_string_term (snd kv)" using "2.prems" by simp
    then show ?thesis using "2.IH" by (simp split: sum.splits)
  qed
qed

lemma compile_cats_malformed:
  "\<exists>kv\<in>set cats. malformed_subs (snd kv) \<Longrightarrow> isl (compile_cats cats compiled)"
proof (induction cats compiled rule: compile_cats.induct)
  case (1 compiled)
  then show ?case by simp
next
  case (2 category subs rest compiled)
  show ?case
  proof (cases "malformed_subs subs")
    case True
    show ?thesis
    proof (cases subs)
      case (JObject kvs)
      then have "isl (compile_subs kvs [])" using True by (simp add: compile_subs_non_string)
      then show ?thesis by (cases "compile_subs kvs []") (simp_all add: JObject)
    qed simp_all
  next
    case False
    then have "\<exists>kv\<in>set rest. malformed_subs (snd kv)" using "2.prems" by simp
    then show ?thesis using "2.IH" by (simp split: sum.splits)
  qed
qed

lemma malformed_is_error: "malformed raw \<Longrightarrow> isl (load_rules_json raw)"
  by (cases raw) (simp_all add: load_rules_json_def compile_cats_malformed)

section \<open>The resolver on an explicit state\<close>

lemma view_visit_st: "view (visit_st desc c s p fr) = apfst (visit desc c s p) (view fr)"
  by (simp add: view_def visit_st_def visit_def Let_def split: option.splits)

lemma view_fold:
  assumes "\<And>x fr. view (f x fr) = apfst (g x) (view fr)"
  shows "view (fold f xs fr) = apfst (fold g xs) (view fr)"
  by (induction xs arbitrary: fr) (simp_all add: assms apfst_def map_prod_def split_beta)

lemma view_fold_pats:
  "view (fold (visit_st desc c s) ps fr) = apfst (fold (visit desc c s) ps) (view fr)"
  by (rule view_fold) (rule view_visit_st)

lemma view_fold_subs:
  "view (fold (\<lambda>(s, ps). fold (visit_st desc c s) ps) subs fr) =
   apfst (fold (\<lambda>(s, ps). fold (visit desc c s) ps) subs) (view fr)"
  by (rule view_fold) (simp add: split_beta view_fold_pats)

lemma view_fold_rules:
  "view (fold (\<lambda>(c, subs). fold (\<lambda>(s, ps). fold (visit_st desc c s) ps) subs) rules fr) =
   apfst (fold (\<lambda>(c, subs). fold (\<lambda>(s, ps). fold (visit desc c s) ps) subs) rules) (view fr)"
  by (rule view_fold) (simp add: split_beta view_fold_subs)

lemma best_match_st_eq: "best_match_st desc rules = (best_match desc rules, rules)"
proof -
  let ?fr = "fold (\<lambda>(c, subs). fold (\<lambda>(s, ps). fold (visit_st desc c s) ps) subs) rules
               \<lparr>rules_obj = rules, best_len = - 1, best_pair = (''Uncategorized'', ''Other'')\<rparr>"
  have "view ?fr =
        (fold (\<lambda>(c, subs). fold (\<lambda>(s, ps). fold (visit desc c s) ps) subs) rules
           (- 1, (''Uncategorized'', ''Other'')), rules)"
    by (subst view_fold_rules) (simp add: view_def)
  then have "best_pair ?fr = best_match desc rules" "rules_obj ?fr = rules"
    unfolding view_def best_match_def by (metis prod.inject snd_conv)+
  then show ?thesis by (simp add: best_match_st_def Let_def)
qed

section \<open>Positions in the iteration order\<close>

lemma set_triples:
  "(c, s, p) \<in> set (triples rules) = (\<exists>subs ps. (c, subs) \<in> set rules \<and> (s, ps) \<in> set subs \<and> p \<in> set ps)"
  unfolding triples_def by (auto intro!: bexI [where x = "(c, subs)" for c subs] simp: image_iff)

lemma best_match_index:
  assumes k: "k < length (triples rules)"
    and m: "0 \<le> span_len (matcher (triples rules ! k)) desc"
    and before: "\<forall>j<k. span_len (matcher (triples rules ! j)) desc < span_len (matcher (triples rules ! k)) desc"
    and after: "\<forall>j<length (triples rules). k < j \<longrightarrow>
                  span_len (matcher (triples rules ! j)) desc \<le> span_len (matcher (triples rules ! k)) desc"
  shows "best_match desc rules = owner (triples rules ! k)"
proof -
  let ?ts = "triples rules"
  have d: "?ts = take k ?ts @ ?ts ! k # drop (Suc k) ?ts"
    using k by (rule id_take_nth_drop)
  have xs: "\<forall>u\<in>set (take k ?ts). span_len (matcher u) desc < span_len (matcher (?ts ! k)) desc"
  proof
    fix u assume "u \<in> set (take k ?ts)"
    then obtain j where "j < length (take k ?ts)" "u = take k ?ts ! j"
      by (auto simp: in_set_conv_nth)
    then have "j < k" "u = ?ts ! j" by simp_all
    then show "span_len (matcher u) desc < span_len (matcher (?ts ! k)) desc"
      using before by simp
  qed
  have ys: "\<forall>u\<in>set (drop (Suc k) ?ts). span_len (matcher u) desc \<le> span_len (matcher (?ts ! k)) desc"
  proof
    fix u assume "u \<in> set (drop (Suc k) ?ts)"
    then obtain j where "j < length (drop (Suc k) ?ts)" "u = drop (Suc k) ?ts ! j"
      by (auto simp: in_set_conv_nth)
    then have "Suc k + j < length ?ts" "k < Suc k + j" "u = ?ts ! (Suc k + j)" by simp_all
    then show "span_len (matcher u) desc \<le> span_len (matcher (?ts ! k)) desc"
      using after by blast
  qed
  show ?thesis by (rule best_match_first_max [OF d m xs ys])
qed

lemma span_len_Some: "search p desc = Some (a, b) \<Longrightarrow> span_len p desc = int b - int a"
  by (simp add: span_len_def)

section \<open>The tokens of the spec and the tokens of the code\<close>

lemma of_char_underscore: "((of_char c :: nat) = 95) = (c = CHR ''_'')"
proof -
  have "(of_char (CHR ''_'') :: nat) = 95" by simp
  then show ?thesis by (metis of_char_eq_iff)
qed

lemma is_word_alphanumeric: "is_word c = (is_alphanumeric c \<or> c = CHR ''_'')"
  unfolding is_word_def is_alphanumeric_def Let_def of_char_underscore [symmetric] by auto

lemma is_alnum_alphanumeric: "is_alnum c \<Longrightarrow> is_alphanumeric c"
  unfolding is_alnum_def is_alphanumeric_def Let_def by auto

lemma re_split_split_by: "re_split s = split_by is_word s"
proof (induction s rule: re_split.induct)
  case (1 s)
  show ?case
  proof (cases "dropWhile is_word s = []")
    case True
    then show ?thesis
      by (subst re_split.simps, subst split_by.simps) (simp add: Let_def)
  next
    case False
    from "1.IH" [OF refl refl False] False show ?thesis
      by (subst re_split.simps, subst split_by.simps) (auto simp: Let_def)
  qed
qed

lemma split_by_cong:
  "\<forall>c\<in>set s. P c = Q c \<Longrightarrow> split_by P s = split_by Q s"
proof (induction s rule: length_induct)
  case (1 s)
  have tw: "takeWhile P s = takeWhile Q s"
    using "1.prems" by (intro takeWhile_cong) simp_all
  have dw: "dropWhile P s = dropWhile Q s"
    using "1.prems" by (intro dropWhile_cong) simp_all
  define r where "r = dropWhile Q s"
  have rs: "set r \<subseteq> set s" unfolding r_def by (auto dest: set_dropWhileD)
  have dn: "dropWhile (\<lambda>c. \<not> P c) r = dropWhile (\<lambda>c. \<not> Q c) r"
    using "1.prems" rs by (intro dropWhile_cong) auto
  define s' where "s' = dropWhile (\<lambda>c. \<not> Q c) r"
  show ?case
  proof (cases "r = []")
    case True
    then show ?thesis
      by (subst split_by.simps, subst (2) split_by.simps) (simp add: Let_def tw dw r_def)
  next
    case False
    have "\<not> Q (hd r)" using False unfolding r_def by (rule hd_dropWhile)
    then have "length s' < length r"
      using False length_dropWhile_le [of "\<lambda>c. \<not> Q c" "tl r"] unfolding s'_def
      by (cases r) simp_all
    moreover have "length r \<le> length s" unfolding r_def by (rule length_dropWhile_le)
    ultimately have "length s' < length s" by simp
    moreover have "\<forall>c\<in>set s'. P c = Q c"
      using "1.prems" rs unfolding s'_def by (auto dest: set_dropWhileD)
    ultimately have "split_by P s' = split_by Q s'" using "1.IH" by blast
    then show ?thesis using False
      by (subst split_by.simps, subst (2) split_by.simps)
         (simp add: Let_def tw dw dn r_def [symmetric] s'_def [symmetric])
  qed
qed

lemma set_strip: "set (strip s) \<subseteq> set s"
  unfolding strip_def by (auto dest!: set_dropWhileD)

lemma spec_tokens_term_tokens:
  assumes "CHR ''_'' \<notin> set T"
  shows "spec_tokens T = term_tokens T"
proof -
  have "\<forall>c\<in>set (strip T). is_alphanumeric c = is_word c"
    using assms set_strip [of T] by (auto simp: is_word_alphanumeric)
  then have "split_by is_alphanumeric (strip T) = split_by is_word (strip T)"
    by (rule split_by_cong)
  then show ?thesis
    by (simp add: spec_tokens_def term_tokens_def tokens_def re_split_split_by Let_def)
qed

section \<open>The specificity resolver\<close>

text \<open>
  C1, as the spec states it, fails on a Rule Set with a third, still longer match: two
  matchers of the set match, \<open>uber cool\<close> (9 characters) longer than \<open>uber\<close> (4), and
  \<open>best_match\<close> returns the owner of neither, but of \<open>uber cool tv\<close> (12).
\<close>

theorem longest_span_third_rule_counterexample:
  "search (make_loose_regex ''uber'') ''UBER COOL TV MONTHLY'' = Some (0, 4) \<and>
   search (make_loose_regex ''uber cool'') ''UBER COOL TV MONTHLY'' = Some (0, 9) \<and>
   best_match ''UBER COOL TV MONTHLY''
     [(''Transport'', [(''Rideshare'', [make_loose_regex ''uber'']),
                       (''Shuttle'', [make_loose_regex ''uber cool''])]),
      (''Entertainment'', [(''Streaming'', [make_loose_regex ''uber cool tv''])])]
   = (''Entertainment'', ''Streaming'')"
  by code_simp

text \<open>
  C1 (longest span wins), amended: if two matchers of the Rule Set, at the positions \<open>i\<close>
  and \<open>j\<close> of the iteration order, both match the description, the leftmost match of the
  first strictly longer than that of the second, and every other matcher of the Rule Set
  matches with a strictly shorter span, or with an equal span and later than \<open>i\<close>, or not
  at all, then \<open>best_match\<close> returns the pair owning the longer-span matcher, whichever of
  \<open>i\<close> and \<open>j\<close> comes first.
\<close>

theorem longest_span_wins:
  assumes "i < length (triples rules)" and "j < length (triples rules)"
    and "triples rules ! i = (cat, sub, pat)" and "triples rules ! j = (cat', sub', pat')"
    and "search pat desc = Some (a, b)" and "search pat' desc = Some (a', b')"
    and "int b' - int a' < int b - int a"
    and "\<forall>k<length (triples rules). k \<noteq> i \<longrightarrow> k \<noteq> j \<longrightarrow>
           (if k < i then span_len (matcher (triples rules ! k)) desc < int b - int a
            else span_len (matcher (triples rules ! k)) desc \<le> int b - int a)"
  shows "best_match desc rules = (cat, sub)"
proof -
  let ?ts = "triples rules"
  have n: "span_len (matcher (?ts ! i)) desc = int b - int a"
    using assms(3,5) by (simp add: matcher_def span_len_Some)
  have n': "span_len (matcher (?ts ! j)) desc = int b' - int a'"
    using assms(4,6) by (simp add: matcher_def span_len_Some)
  have "0 \<le> span_len (matcher (?ts ! i)) desc"
    using assms(3,5) by (simp add: span_len_match matcher_def)
  moreover have "\<forall>k<i. span_len (matcher (?ts ! k)) desc < span_len (matcher (?ts ! i)) desc"
  proof (intro allI impI)
    fix k assume "k < i"
    then show "span_len (matcher (?ts ! k)) desc < span_len (matcher (?ts ! i)) desc"
      using assms(1,7,8) n n' by (cases "k = j") auto
  qed
  moreover have "\<forall>k<length ?ts. i < k \<longrightarrow>
      span_len (matcher (?ts ! k)) desc \<le> span_len (matcher (?ts ! i)) desc"
  proof (intro allI impI)
    fix k assume "k < length ?ts" "i < k"
    then show "span_len (matcher (?ts ! k)) desc \<le> span_len (matcher (?ts ! i)) desc"
      using assms(7,8) n n' by (cases "k = j") auto
  qed
  ultimately have "best_match desc rules = owner (?ts ! i)"
    using assms(1) by (intro best_match_index)
  then show ?thesis using assms(3) by (simp add: owner_def)
qed

text \<open>
  The second end-to-end example of the spec, in both declaration orders: \<open>uber cool tv\<close>
  (12 characters) wins over \<open>uber\<close> (4).
\<close>

theorem longest_span_wins_witness:
  "best_match ''UBER COOL TV MONTHLY''
     [(''Transport'', [(''Rideshare'', [make_loose_regex ''uber''])]),
      (''Entertainment'', [(''Streaming'', [make_loose_regex ''uber cool tv''])])]
   = (''Entertainment'', ''Streaming'') \<and>
   best_match ''UBER COOL TV MONTHLY''
     [(''Entertainment'', [(''Streaming'', [make_loose_regex ''uber cool tv''])]),
      (''Transport'', [(''Rideshare'', [make_loose_regex ''uber''])])]
   = (''Entertainment'', ''Streaming'')"
proof -
  let ?d = "''UBER COOL TV MONTHLY''"
  let ?p = "make_loose_regex ''uber cool tv''"
  let ?q = "make_loose_regex ''uber''"
  let ?r1 = "[(''Transport'', [(''Rideshare'', [?q])]), (''Entertainment'', [(''Streaming'', [?p])])]"
  let ?r2 = "[(''Entertainment'', [(''Streaming'', [?p])]), (''Transport'', [(''Rideshare'', [?q])])]"
  have t1: "triples ?r1 = [(''Transport'', ''Rideshare'', ?q), (''Entertainment'', ''Streaming'', ?p)]"
    by (simp add: triples_def)
  have t2: "triples ?r2 = [(''Entertainment'', ''Streaming'', ?p), (''Transport'', ''Rideshare'', ?q)]"
    by (simp add: triples_def)
  have p: "search ?p ?d = Some (0, 12)" by code_simp
  have q: "search ?q ?d = Some (0, 4)" by code_simp
  have lt: "int 4 - int 0 < int 12 - int 0" by simp
  have "best_match ?d ?r1 = (''Entertainment'', ''Streaming'')"
    by (rule longest_span_wins [where i = 1 and j = 0, OF _ _ _ _ p q lt])
       (auto simp: t1 less_Suc_eq)
  moreover have "best_match ?d ?r2 = (''Entertainment'', ''Streaming'')"
    by (rule longest_span_wins [where i = 0 and j = 1, OF _ _ _ _ p q lt])
       (auto simp: t2 less_Suc_eq)
  ultimately show ?thesis by simp
qed

text \<open>
  C2 (strict improvement, first encountered wins a tie): a step of the loop leaves the
  best candidate as it is unless the span of the visited matcher is strictly greater than
  \<open>best_len\<close>. So if the triple at position \<open>k\<close> of the iteration order (category,
  then subcategory, then pattern list order) matches, no triple of the Rule Set has a
  longer span, and no triple before \<open>k\<close> has the same span, then \<open>best_match\<close>
  returns the pair of that triple: the triples after it that match with the same span do
  not replace it.
\<close>

theorem first_longest_match_wins:
  assumes "k < length (triples rules)"
    and "triples rules ! k = (cat, sub, pat)"
    and "search pat desc = Some (a, b)"
    and "\<forall>j<length (triples rules). span_len (matcher (triples rules ! j)) desc \<le> int b - int a"
    and "\<forall>j<k. span_len (matcher (triples rules ! j)) desc \<noteq> int b - int a"
  shows "best_match desc rules = (cat, sub) \<and>
         (\<forall>c s p bl bp. span_len p desc \<le> bl \<longrightarrow> visit desc c s p (bl, bp) = (bl, bp))"
proof -
  let ?ts = "triples rules"
  have keep: "\<forall>c s p bl bp. span_len p desc \<le> bl \<longrightarrow> visit desc c s p (bl, bp) = (bl, bp)"
    by (auto simp: visit_def span_len_def Let_def split: option.splits)
  have n: "span_len (matcher (?ts ! k)) desc = int b - int a"
    using assms(2,3) by (simp add: matcher_def span_len_Some)
  have "0 \<le> span_len (matcher (?ts ! k)) desc"
    using assms(2,3) by (simp add: span_len_match matcher_def)
  moreover have "\<forall>j<k. span_len (matcher (?ts ! j)) desc < span_len (matcher (?ts ! k)) desc"
  proof (intro allI impI)
    fix j assume "j < k"
    then have "span_len (matcher (?ts ! j)) desc \<le> int b - int a"
      and "span_len (matcher (?ts ! j)) desc \<noteq> int b - int a"
      using assms(1,4,5) by simp_all
    then show "span_len (matcher (?ts ! j)) desc < span_len (matcher (?ts ! k)) desc"
      using n by simp
  qed
  moreover have "\<forall>j<length ?ts. k < j \<longrightarrow>
      span_len (matcher (?ts ! j)) desc \<le> span_len (matcher (?ts ! k)) desc"
    using assms(4) n by simp
  ultimately have "best_match desc rules = owner (?ts ! k)"
    using assms(1) by (intro best_match_index)
  then show ?thesis using assms(2) keep by (simp add: owner_def)
qed

text \<open>
  \<open>exxon\<close> and \<open>shell\<close> both match with the longest span, 5 characters; \<open>exxon\<close> comes
  first in the Rule Set (after the shorter \<open>oil\<close>) and wins, although \<open>shell\<close> matches
  further to the left in the description.
\<close>

theorem first_longest_match_wins_witness:
  "search (make_loose_regex ''exxon'') ''SHELL OIL 5732 EXXON'' = Some (15, 20) \<and>
   search (make_loose_regex ''shell'') ''SHELL OIL 5732 EXXON'' = Some (0, 5) \<and>
   best_match ''SHELL OIL 5732 EXXON''
     [(''Auto'', [(''Service'', [make_loose_regex ''oil'']),
                  (''Fuel'', [make_loose_regex ''exxon''])]),
      (''Shopping'', [(''Convenience'', [make_loose_regex ''shell''])])]
   = (''Auto'', ''Fuel'')"
proof -
  let ?d = "''SHELL OIL 5732 EXXON''"
  let ?o = "make_loose_regex ''oil''"
  let ?e = "make_loose_regex ''exxon''"
  let ?s = "make_loose_regex ''shell''"
  let ?r = "[(''Auto'', [(''Service'', [?o]), (''Fuel'', [?e])]), (''Shopping'', [(''Convenience'', [?s])])]"
  have t: "triples ?r = [(''Auto'', ''Service'', ?o), (''Auto'', ''Fuel'', ?e), (''Shopping'', ''Convenience'', ?s)]"
    by (simp add: triples_def)
  have e: "search ?e ?d = Some (15, 20)" by code_simp
  have s: "search ?s ?d = Some (0, 5)" by code_simp
  have so: "span_len ?o ?d = 3" by code_simp
  have se: "span_len ?e ?d = 5" by code_simp
  have ss: "span_len ?s ?d = 5" by code_simp
  have "best_match ?d ?r = (''Auto'', ''Fuel'')"
    by (rule conjunct1 [OF first_longest_match_wins [where k = 1, OF _ _ e]])
       (auto simp: t less_Suc_eq matcher_def so se ss)
  with e s show ?thesis by simp
qed

text \<open>
  C3 (no-match fallback): if no matcher of the Rule Set matches the description,
  \<open>best_match\<close> returns the pair \<open>("Uncategorized", "Other")\<close>; it is an ordinary
  return value of the function.
\<close>

theorem no_match_fallback:
  assumes "\<forall>(cat, subs)\<in>set rules. \<forall>(sub, pats)\<in>set subs. \<forall>pat\<in>set pats. search pat desc = None"
  shows "best_match desc rules = (''Uncategorized'', ''Other'')"
proof (rule best_match_no_match)
  show "\<forall>u\<in>set (triples rules). search (matcher u) desc = None"
  proof
    fix u assume u: "u \<in> set (triples rules)"
    obtain c s p where "u = (c, s, p)" by (cases u)
    with u obtain subs ps where "(c, subs) \<in> set rules" "(s, ps) \<in> set subs" "p \<in> set ps"
      by (auto simp: set_triples)
    with assms have "search p desc = None" by fastforce
    then show "search (matcher u) desc = None"
      by (simp add: \<open>u = (c, s, p)\<close> matcher_def)
  qed
qed

theorem no_match_fallback_witness:
  "search (make_loose_regex ''gas'') ''Las Vegas Casino'' = None \<and>
   best_match ''Las Vegas Casino'' [(''Auto'', [(''Fuel'', [make_loose_regex ''gas''])])]
   = (''Uncategorized'', ''Other'')"
proof -
  have n: "search (make_loose_regex ''gas'') ''Las Vegas Casino'' = None" by code_simp
  have "best_match ''Las Vegas Casino'' [(''Auto'', [(''Fuel'', [make_loose_regex ''gas''])])]
        = (''Uncategorized'', ''Other'')"
    by (rule no_match_fallback) (simp add: n)
  with n show ?thesis by simp
qed

section \<open>The rule compiler\<close>

text \<open>
  C4, as the spec states it, fails for the terms it names expressly, those that tokenize
  to nothing: \<open>make_loose_regex\<close> returns their escaped literal without lookarounds, so
  the matcher of \<open>-\<close> matches between \<open>a\<close> and \<open>b\<close>. The lookarounds of the other
  terms are the class \<open>[A-Za-z0-9]\<close>, narrower than the word characters that make a
  token: \<open>gas\<close> matches behind the letter U+00E9.
\<close>

theorem literal_fallback_no_boundary_counterexample:
  "tokens (strip ''-'') = [] \<and>
   search (make_loose_regex ''-'') ''a-b'' = Some (1, 2) \<and>
   is_alnum (''a-b'' ! 0) \<and> is_alnum (''a-b'' ! 2) \<and>
   search (make_loose_regex ''gas'') [CHR ''V'', CHR 0xE9, CHR ''g'', CHR ''a'', CHR ''s''] = Some (2, 5) \<and>
   is_word (CHR 0xE9)"
  by code_simp

text \<open>
  C4 (boundaries of a match), amended: for every rule term with at least one token, the
  span that the compiled matcher finds in a description lies inside the description and is
  neither immediately preceded nor immediately followed by an ASCII letter or digit.
\<close>

theorem match_boundaries:
  assumes "tokens (strip T) \<noteq> []"
    and "search (make_loose_regex T) desc = Some (a, b)"
  shows "a \<le> b \<and> b \<le> length desc \<and>
         (a = 0 \<or> \<not> is_alnum (desc ! (a - 1))) \<and>
         (b = length desc \<or> \<not> is_alnum (desc ! b))"
  using search_bounds [OF assms(2)] search_boundaries [OF assms] by simp

theorem match_boundaries_witness:
  "tokens (strip ''gas'') = [''gas''] \<and>
   search (make_loose_regex ''gas'') ''Las Vegas, gas 12'' = Some (11, 14) \<and>
   \<not> is_alnum (''Las Vegas, gas 12'' ! 10) \<and> \<not> is_alnum (''Las Vegas, gas 12'' ! 14)"
proof -
  have t: "tokens (strip ''gas'') = [''gas'']" by code_simp
  then have t': "tokens (strip ''gas'') \<noteq> []" by simp
  have s: "search (make_loose_regex ''gas'') ''Las Vegas, gas 12'' = Some (11, 14)" by code_simp
  show ?thesis using match_boundaries [OF t' s] t s by simp
qed

text \<open>
  C5 (substring boundary, the two examples of the spec): the matcher of \<open>gas\<close> finds
  nothing in \<open>Las Vegas Casino\<close>, and the matcher of \<open>fedex\<close> finds the span from 0 to 5
  of \<open>FEDEX OFFICE PRINT #123\<close>, the text \<open>FEDEX\<close>.
\<close>

theorem gas_vegas_fedex:
  "search (make_loose_regex ''gas'') ''Las Vegas Casino'' = None \<and>
   search (make_loose_regex ''fedex'') ''FEDEX OFFICE PRINT #123'' = Some (0, 5) \<and>
   take (5 - 0) (drop 0 ''FEDEX OFFICE PRINT #123'') = ''FEDEX''"
  by code_simp

text \<open>
  C6, as the spec states it, fails on a tie. No rule matches \<open>SHELL OIL 5732 EXXON\<close>
  with a longer span than \<open>shell\<close>, but \<open>exxon\<close> matches with the same span and comes
  first in the Rule Set, so its owner is returned: \<open>best_match\<close> replaces its candidate
  on a strictly longer span only.
\<close>

theorem variant_resolves_counterexample:
  "CHR ''_'' \<notin> set ''shell'' \<and>
   spec_tokens ''shell'' = [''shell''] \<and>
   ''SHELL OIL 5732 EXXON'' = '''' @ weave [] [''SHELL''] @ '' OIL 5732 EXXON'' \<and>
   \<not> is_alphanumeric (hd '' OIL 5732 EXXON'') \<and>
   span_len (make_loose_regex ''shell'') ''SHELL OIL 5732 EXXON'' = 5 \<and>
   span_len (make_loose_regex ''exxon'') ''SHELL OIL 5732 EXXON'' = 5 \<and>
   best_match ''SHELL OIL 5732 EXXON''
     [(''Auto'', [(''Fuel'', [make_loose_regex ''exxon''])]),
      (''Shopping'', [(''Convenience'', [make_loose_regex ''shell''])])]
   = (''Auto'', ''Fuel'')"
  by code_simp

text \<open>
  C6 (variants of a term resolve to its owner), amended: let \<open>T\<close> be a rule term of the
  Rule Set, owned by \<open>(cat, sub)\<close>, and let the description be \<open>prefix\<close>, then the tokens
  of \<open>T\<close> in order, each with the case of any of its characters changed, character by
  character, with any run of non-alphanumeric characters (possibly empty) between
  consecutive tokens, then \<open>suffix\<close>, where \<open>prefix\<close> is empty or ends with, and
  \<open>suffix\<close> is empty or begins with, a non-alphanumeric character. Then the matcher of
  \<open>T\<close> matches the description, and \<open>best_match\<close> returns \<open>(cat, sub)\<close> provided every
  matcher before it in the iteration order has a strictly shorter span (or no match) and no
  matcher after it has a strictly longer span. The statement is made for terms and
  separators without the underscore, and says nothing where one occurs: there the pattern
  \<open>\W*\<close> and the split on \<open>[^\w]+\<close> depart from the rule of main.py's own comments,
  that any non-alphanumeric character separates tokens.
\<close>

theorem variant_resolves:
  assumes "CHR ''_'' \<notin> set T"
    and "list_all2 case_variant (spec_tokens T) vs"
    and "\<forall>sep\<in>set seps. \<forall>c\<in>set sep. \<not> is_alphanumeric c \<and> c \<noteq> CHR ''_''"
    and "prefix = [] \<or> \<not> is_alphanumeric (last prefix)"
    and "suffix = [] \<or> \<not> is_alphanumeric (hd suffix)"
    and "desc = prefix @ weave seps vs @ suffix"
    and "triples rules = before @ (cat, sub, make_loose_regex T) # after"
    and "\<forall>u\<in>set before. span_len (matcher u) desc < span_len (make_loose_regex T) desc"
    and "\<forall>u\<in>set after. span_len (matcher u) desc \<le> span_len (make_loose_regex T) desc"
  shows "search (make_loose_regex T) desc \<noteq> None \<and> best_match desc rules = (cat, sub)"
proof -
  let ?t = "(cat, sub, make_loose_regex T)"
  have v: "list_all2 case_variant (term_tokens T) vs"
    using assms(1,2) by (simp add: spec_tokens_term_tokens)
  have s: "\<forall>sep\<in>set seps. \<forall>c\<in>set sep. \<not> is_word c"
    using assms(3) by (simp add: is_word_alphanumeric)
  have p: "prefix = [] \<or> \<not> is_alnum (last prefix)"
    using assms(4) is_alnum_alphanumeric by blast
  have q: "suffix = [] \<or> \<not> is_alnum (hd suffix)"
    using assms(5) is_alnum_alphanumeric by blast
  have m: "\<exists>a b. search (make_loose_regex T) desc = Some (a, b)"
    unfolding assms(6) using v s p q by (rule loose_match)
  then have "0 \<le> span_len (matcher ?t) desc"
    by (auto simp: span_len_match matcher_def)
  moreover have "\<forall>u\<in>set before. span_len (matcher u) desc < span_len (matcher ?t) desc"
    using assms(8) by (simp add: matcher_def)
  moreover have "\<forall>u\<in>set after. span_len (matcher u) desc \<le> span_len (matcher ?t) desc"
    using assms(9) by (simp add: matcher_def)
  ultimately have "best_match desc rules = owner ?t"
    using assms(7) by (intro best_match_first_max)
  then show ?thesis using m by (auto simp: owner_def)
qed

theorem variant_resolves_witness:
  "span_len (make_loose_regex ''market'') ''POS Whole - FOODS market #532'' = 6 \<and>
   span_len (make_loose_regex '' whole foods'') ''POS Whole - FOODS market #532'' = 13 \<and>
   best_match ''POS Whole - FOODS market #532''
     [(''Shopping'', [(''General'', [make_loose_regex ''market''])]),
      (''Food'', [(''Groceries'', [make_loose_regex '' whole foods''])])]
   = (''Food'', ''Groceries'')"
proof -
  let ?d = "''POS Whole - FOODS market #532''"
  let ?m = "make_loose_regex ''market''"
  let ?w = "make_loose_regex '' whole foods''"
  let ?r = "[(''Shopping'', [(''General'', [?m])]), (''Food'', [(''Groceries'', [?w])])]"
  have u: "CHR ''_'' \<notin> set '' whole foods''" by simp
  have v: "list_all2 case_variant (spec_tokens '' whole foods'') [''Whole'', ''FOODS'']" by code_simp
  have sp: "\<forall>sep\<in>set ['' - '']. \<forall>c\<in>set sep. \<not> is_alphanumeric c \<and> c \<noteq> CHR ''_''" by code_simp
  have pre: "''POS '' = [] \<or> \<not> is_alphanumeric (last ''POS '')" by code_simp
  have suf: "'' market #532'' = [] \<or> \<not> is_alphanumeric (hd '' market #532'')" by code_simp
  have d: "?d = ''POS '' @ weave ['' - ''] [''Whole'', ''FOODS''] @ '' market #532''" by simp
  have t: "triples ?r = [(''Shopping'', ''General'', ?m)] @ (''Food'', ''Groceries'', ?w) # []"
    by (simp add: triples_def)
  have sm: "span_len ?m ?d = 6" by code_simp
  have sw: "span_len ?w ?d = 13" by code_simp
  have "search ?w ?d \<noteq> None \<and> best_match ?d ?r = (''Food'', ''Groceries'')"
    by (rule variant_resolves [OF u v sp pre suf d t]) (simp_all add: matcher_def sm sw)
  with sm sw show ?thesis by simp
qed

section \<open>Edge cases and errors\<close>

text \<open>
  C7, as the spec states it, fails for a Rule Set with a term of whitespace only: the term
  is trimmed to the empty string, compiled to the empty pattern, and the empty pattern
  matches the empty description with a span of length 0, which is more than the initial
  \<open>best_len\<close> of \<open>-1\<close>.
\<close>

theorem empty_term_matches_empty_description_counterexample:
  "make_loose_regex ''  '' = [] \<and>
   search (make_loose_regex ''  '') '''' = Some (0, 0) \<and>
   best_match '''' [(''Food'', [(''Groceries'', [make_loose_regex ''  ''])])]
   = (''Food'', ''Groceries'')"
  by code_simp

text \<open>
  C7 (the empty description), amended: for every Rule Set compiled from terms none of
  which is empty or whitespace only, \<open>best_match\<close> returns \<open>("Uncategorized", "Other")\<close> on
  the empty description.
\<close>

theorem empty_description_no_match:
  assumes "\<forall>(cat, subs)\<in>set rules. \<forall>(sub, pats)\<in>set subs. \<forall>pat\<in>set pats.
             \<exists>T. strip T \<noteq> [] \<and> pat = make_loose_regex T"
  shows "best_match [] rules = (''Uncategorized'', ''Other'')"
proof (rule best_match_no_match)
  show "\<forall>u\<in>set (triples rules). search (matcher u) [] = None"
  proof
    fix u assume u: "u \<in> set (triples rules)"
    obtain c s p where "u = (c, s, p)" by (cases u)
    with u obtain subs ps where "(c, subs) \<in> set rules" "(s, ps) \<in> set subs" "p \<in> set ps"
      by (auto simp: set_triples)
    with assms have "\<exists>T. strip T \<noteq> [] \<and> p = make_loose_regex T" by fastforce
    then have "search p [] = None" by (auto simp: search_empty_nonblank)
    then show "search (matcher u) [] = None"
      by (simp add: \<open>u = (c, s, p)\<close> matcher_def)
  qed
qed

theorem empty_description_no_match_witness:
  "strip ''uber'' = ''uber'' \<and> strip '' - '' = ''-'' \<and>
   best_match ''''
     [(''Transport'', [(''Rideshare'', [make_loose_regex ''uber''])]),
      (''Other'', [(''Dash'', [make_loose_regex '' - ''])])]
   = (''Uncategorized'', ''Other'')"
proof -
  have u: "strip ''uber'' = ''uber''" by code_simp
  have d: "strip '' - '' = ''-''" by code_simp
  have "\<exists>T. strip T \<noteq> [] \<and> make_loose_regex ''uber'' = make_loose_regex T"
    by (rule exI [of _ "''uber''"]) (simp add: u)
  moreover have "\<exists>T. strip T \<noteq> [] \<and> make_loose_regex '' - '' = make_loose_regex T"
    by (rule exI [of _ "'' - ''"]) (simp add: d)
  ultimately have "best_match ''''
     [(''Transport'', [(''Rideshare'', [make_loose_regex ''uber''])]),
      (''Other'', [(''Dash'', [make_loose_regex '' - ''])])]
   = (''Uncategorized'', ''Other'')"
    by (intro empty_description_no_match) simp
  with u d show ?thesis by simp
qed

text \<open>
  C8, as the spec states it for malformed input, fails where the list of terms of a
  subcategory is not a list but a string or a mapping: nothing in \<open>load_rules_json\<close>
  checks the shape of its input, the loop over the terms runs over the characters of the
  string, or over the keys of the mapping, and a Rule Set is returned.
\<close>

theorem terms_as_string_accepted_counterexample:
  "load_rules_json (JObject [(''Auto'', JObject [(''Fuel'', JString ''gas'')])]) =
     Inr [(''Auto'', [(''Fuel'', [make_loose_regex ''g'', make_loose_regex ''a'', make_loose_regex ''s''])])] \<and>
   load_rules_json (JObject [(''Auto'', JObject [(''Fuel'', JObject [(''gas'', JInt 1)])])]) =
     Inr [(''Auto'', [(''Fuel'', [make_loose_regex ''gas''])])]"
  by (simp add: load_rules_json_def)

text \<open>
  C8 (malformed rules), amended: if the rules document is not a mapping, or the value of
  a category is not a mapping, or a list of terms holds a term that is not a string, then
  \<open>load_rules_json\<close> raises (an \<open>AttributeError\<close> or a \<open>TypeError\<close> of Python) and
  returns no Rule Set, so that nothing can be matched against a part of the rules.
\<close>

theorem load_rules_json_malformed_fails:
  assumes "malformed raw"
  shows "\<exists>e. load_rules_json raw = Inl e"
  using malformed_is_error [OF assms] by (cases "load_rules_json raw") simp_all

theorem load_rules_json_malformed_fails_witness:
  "load_rules_json (JObject [(''Food'', JObject [(''Groceries'', JArray [JString ''whole foods'', JInt 7])])])
     = Inl (AttributeError ''int'' ''strip'') \<and>
   load_rules_json (JObject [(''Food'', JArray [JString ''whole foods''])])
     = Inl (AttributeError ''list'' ''items'') \<and>
   load_rules_json (JArray [JString ''whole foods'']) = Inl (AttributeError ''list'' ''items'')"
proof -
  let ?a = "JObject [(''Food'', JObject [(''Groceries'', JArray [JString ''whole foods'', JInt 7])])]"
  let ?b = "JObject [(''Food'', JArray [JString ''whole foods''])]"
  let ?c = "JArray [JString ''whole foods'']"
  have a: "malformed ?a" and b: "malformed ?b" and c: "malformed ?c" by simp_all
  show ?thesis
    using load_rules_json_malformed_fails [OF a] load_rules_json_malformed_fails [OF b]
      load_rules_json_malformed_fails [OF c]
    by (auto simp: load_rules_json_def)
qed

section \<open>Determinism and round trip\<close>

text \<open>
  C9 (determinism and purity): \<open>best_match\<close> is a function of the description and the
  Rule Set. On the state that holds the Rule Set object, a call returns the result of that
  function and leaves the Rule Set as it was, and a second call on the state the first one
  left returns the same.
\<close>

theorem best_match_pure:
  "fst (best_match_st desc rules) = best_match desc rules \<and>
   snd (best_match_st desc rules) = rules \<and>
   best_match_st desc (snd (best_match_st desc rules)) = best_match_st desc rules"
  by (simp add: best_match_st_eq)

text \<open>
  C10 (a term matches itself): for every rule term \<open>T\<close>, the matcher compiled from \<open>T\<close>
  finds a match in the trimmed text of \<open>T\<close>.
\<close>

theorem term_matches_itself:
  "\<exists>a b. search (make_loose_regex T) (strip T) = Some (a, b)"
proof (cases "tokens (strip T) = []")
  case True
  then have tt: "term_tokens T = [strip T]" by (simp add: term_tokens_def Let_def)
  have "\<exists>a b. search (make_loose_regex T) ([] @ weave [] [strip T] @ []) = Some (a, b)"
    by (rule loose_match) (simp_all add: tt case_variant_refl)
  then show ?thesis by simp
next
  case False
  then have tt: "term_tokens T = tokens (strip T)" by (simp add: term_tokens_def Let_def)
  from tokens_decomp [OF False] obtain pre seps post where
    d: "strip T = pre @ weave seps (tokens (strip T)) @ post"
    and pre: "\<forall>c\<in>set pre. \<not> is_word c"
    and seps: "\<forall>sep\<in>set seps. \<forall>c\<in>set sep. \<not> is_word c"
    and post: "\<forall>c\<in>set post. \<not> is_word c" by blast
  have v: "list_all2 case_variant (term_tokens T) (tokens (strip T))"
    by (simp add: tt list_all2_same case_variant_refl)
  have p: "pre = [] \<or> \<not> is_alnum (last pre)"
    using pre is_alnum_word by (cases "pre = []") (auto dest: last_in_set)
  have s: "post = [] \<or> \<not> is_alnum (hd post)"
    using post is_alnum_word by (cases post) auto
  have "\<exists>a b. search (make_loose_regex T) (pre @ weave seps (tokens (strip T)) @ post) = Some (a, b)"
    using v seps p s by (rule loose_match)
  then show ?thesis using d by simp
qed

section \<open>The end-to-end examples of the spec\<close>

lemma end_to_end_whole_foods:
  "map_sum id (best_match ''WHOLEFOODS MKT #532 CAMBRIDGE MA'')
     (load_rules_json (JObject [(''Food'', JObject [(''Groceries'', JArray [JString ''whole foods''])])]))
   = Inr (''Food'', ''Groceries'')"
  by code_simp

lemma end_to_end_uber:
  "map_sum id (best_match ''UBER COOL TV MONTHLY'')
     (load_rules_json (JObject
        [(''Transport'', JObject [(''Rideshare'', JArray [JString ''uber''])]),
         (''Entertainment'', JObject [(''Streaming'', JArray [JString ''uber cool tv''])])]))
   = Inr (''Entertainment'', ''Streaming'')"
  by code_simp

end
